theory Spec2Isabelle
  imports Main "HOL-Library.Char_ord" "HOL-Library.List_Lexorder"
begin

section \<open>Data model\<close>

text \<open>
  The notebook \<^verbatim>\<open>FineTuning_v1.ipynb\<close> reads exported chat messages, builds
  (conversation, engaged users) examples with a temporal-query engine, and formats them
  as prompt/completion pairs. A message row carries the columns the notebook reads:
  \<^verbatim>\<open>channel\<close>, \<^verbatim>\<open>thread_ts\<close>, \<^verbatim>\<open>ts_parsed\<close> (the time column), and the four
  selected columns \<^verbatim>\<open>user\<close>, \<^verbatim>\<open>ts\<close>, \<^verbatim>\<open>text\<close>, \<^verbatim>\<open>reactions\<close>. Timestamps are
  integers (nanoseconds); \<^verbatim>\<open>datetime.timedelta(seconds=1)\<close> is \<open>timedelta_seconds 1\<close>.
\<close>

type_synonym time = int

definition timedelta_seconds :: "int \<Rightarrow> time" where
  "timedelta_seconds s = s * 1000000000"

record reaction =
  reaction_name :: string
  users :: "string list"

record conv_msg =
  user :: string
  ts :: string
  msg_text :: string
  reactions :: "reaction list"

record message = conv_msg +
  channel :: string
  thread_ts :: "string option"
  ts_parsed :: time

type_synonym entity_key = "string \<times> string option"

section \<open>Window aggregation (cell ``Build examples'')\<close>

text \<open>
  Modelled from the spec: the temporal-query engine behind \<^verbatim>\<open>kt.sources.Parquet\<close>,
  \<^verbatim>\<open>with_key\<close>, \<^verbatim>\<open>collect\<close>, \<^verbatim>\<open>shift_by\<close>, \<^verbatim>\<open>kt.windows.Trailing\<close>, \<^verbatim>\<open>flatten\<close>,
  \<^verbatim>\<open>union\<close>, \<^verbatim>\<open>kt.record\<close> and \<^verbatim>\<open>filter\<close> is an external library whose code is not in
  the repository. Its operators follow section 4.2 of the specification: one append-only
  buffer per entity key; per incoming event, the snapshot is taken as of the event time
  minus the shift delay, the engagement is read from the trailing window ending at the
  event time, and nothing is emitted when the snapshot is null. Section 4.2 words the run
  per incoming event only; the engine derives a row at every point of the streams a
  record is built from, and \<^verbatim>\<open>shift_by\<close> gives \<^verbatim>\<open>shifted_conversations\<close> a point of its
  own one second after each event, so the run below also derives a row at each of those
  shifted points. The way the operators are composed, and the constants 20, 100 and one
  second, are the notebook's.
\<close>

text \<open>Modelled from the spec: an entity stream is ordered by timestamp, ties broken by
  arrival order (a stable sort on the time column \<^verbatim>\<open>ts_parsed\<close>).\<close>

definition messages_source :: "message list \<Rightarrow> message list" where
  "messages_source rows = sort_key ts_parsed rows"

text \<open>\<^verbatim>\<open>messages.with_key(kt.record({"channel": ..., "thread": messages.col("thread_ts")}))\<close>\<close>

definition with_key :: "message \<Rightarrow> entity_key" where
  "with_key m = (channel m, thread_ts m)"

text \<open>\<^verbatim>\<open>.select("user", "ts", "text", "reactions")\<close>\<close>

definition select_fields :: "message \<Rightarrow> conv_msg" where
  "select_fields m =
     \<lparr>user = user m, ts = ts m, msg_text = msg_text m, reactions = reactions m\<rparr>"

text \<open>Modelled from the spec: \<^verbatim>\<open>collect(max=n)\<close> keeps the last at most \<open>n\<close> values.\<close>

definition collect_max :: "nat \<Rightarrow> 'a list \<Rightarrow> 'a list" where
  "collect_max n xs = drop (length xs - n) xs"

text \<open>\<^verbatim>\<open>conversations = messages.select(...).collect(max=20)\<close>\<close>

definition conversations :: "message list \<Rightarrow> conv_msg list" where
  "conversations buf = collect_max 20 (map select_fields buf)"

text \<open>Modelled from the spec: the buffer as of a cutoff time holds the events with
  timestamp at most the cutoff.\<close>

definition as_of :: "time \<Rightarrow> message list \<Rightarrow> message list" where
  "as_of t buf = filter (\<lambda>m. ts_parsed m \<le> t) buf"

text \<open>Modelled from the spec: \<^verbatim>\<open>shift_by(d)\<close> of a derived view is the view as of the
  current event time minus \<open>d\<close>; it is null (\<open>None\<close>) while no event lies at or before
  that cutoff.\<close>

definition shift_by :: "time \<Rightarrow> (message list \<Rightarrow> 'a) \<Rightarrow> message list \<Rightarrow> time \<Rightarrow> 'a option" where
  "shift_by d view buf now =
     (let past = as_of (now - d) buf
      in if past = [] then None else Some (view past))"

text \<open>\<^verbatim>\<open>shifted_conversations = conversations.shift_by(datetime.timedelta(seconds=1))\<close>\<close>

definition shifted_conversations :: "message list \<Rightarrow> time \<Rightarrow> conv_msg list option" where
  "shifted_conversations buf now = shift_by (timedelta_seconds 1) conversations buf now"

text \<open>Modelled from the spec: \<^verbatim>\<open>kt.windows.Trailing(d)\<close> is the window of length \<open>d\<close>
  ending at the current event time. The algorithm of section 4.2 and the scenario of
  section 8 fix its bounds: the event at the current time is inside, the event exactly
  \<open>d\<close> earlier is outside. (The introduction of section 4.2 writes the interval
  half-open the other way, which contradicts the scenario.)\<close>

definition trailing :: "time \<Rightarrow> time \<Rightarrow> message list \<Rightarrow> message list" where
  "trailing d now buf = filter (\<lambda>m. now - d < ts_parsed m \<and> ts_parsed m \<le> now) buf"

text \<open>\<^verbatim>\<open>messages.collect(window=kt.windows.Trailing(timedelta(seconds=1)), max=100)\<close>\<close>

definition window_messages :: "message list \<Rightarrow> time \<Rightarrow> message list" where
  "window_messages buf now = collect_max 100 (trailing (timedelta_seconds 1) now buf)"

text \<open>\<^verbatim>\<open>reaction_users = ... .col("reactions").flatten().col("users").flatten()\<close>\<close>

definition reaction_users :: "message list \<Rightarrow> time \<Rightarrow> string list" where
  "reaction_users buf now =
     concat (map users (concat (map reactions (window_messages buf now))))"

text \<open>\<^verbatim>\<open>participating_users = ... .col("user")\<close>\<close>

definition participating_users :: "message list \<Rightarrow> time \<Rightarrow> string list" where
  "participating_users buf now = map user (window_messages buf now)"

text \<open>Modelled from the spec: \<^verbatim>\<open>union\<close> collapses duplicates; the order of the result is
  not fixed by the specification (here: the order of last occurrence).\<close>

definition union_list :: "'a list \<Rightarrow> 'a list \<Rightarrow> 'a list" where
  "union_list xs ys = remdups (xs @ ys)"

text \<open>The two data columns of a history row; the engine's row also carries the hidden
  columns \<^verbatim>\<open>_time\<close> and \<^verbatim>\<open>_key\<close> (\<^verbatim>\<open>_subsort\<close> and \<^verbatim>\<open>_key_hash\<close> are not modelled).\<close>

record df_row =
  conversation :: "conv_msg list"
  engaged_users :: "string list"

record history_row = df_row +
  row_time :: time
  row_key :: entity_key

text \<open>\<^verbatim>\<open>history = kt.record({"conversation": shifted_conversations,
  "engaged_users": reaction_users.union(participating_users)})
  .filter(shifted_conversations.is_not_null())\<close>, at the event \<open>e\<close> just appended to \<open>buf\<close>.\<close>

definition history_at :: "message list \<Rightarrow> message \<Rightarrow> history_row option" where
  "history_at buf e =
     (case shifted_conversations buf (ts_parsed e) of
        None \<Rightarrow> None
      | Some c \<Rightarrow>
          Some \<lparr>conversation = c,
                engaged_users = union_list (reaction_users buf (ts_parsed e))
                                           (participating_users buf (ts_parsed e)),
                row_time = ts_parsed e,
                row_key = with_key e\<rparr>)"

type_synonym buffers = "entity_key \<Rightarrow> message list"

text \<open>Modelled from the spec: the points at which the engine evaluates \<^verbatim>\<open>history\<close> for one
  run. \<open>Event m\<close> is an input event; \<open>Shifted t k v\<close> is the point that
  \<^verbatim>\<open>conversations.shift_by(datetime.timedelta(seconds=1))\<close> creates at time \<open>t\<close> for the
  entity \<open>k\<close>, carrying the value \<open>v\<close> that \<^verbatim>\<open>conversations\<close> had at the event it was
  shifted from.\<close>

datatype point = Event message | Shifted time entity_key "conv_msg list"

definition point_time :: "point \<Rightarrow> time" where
  "point_time p = (case p of Event m \<Rightarrow> ts_parsed m | Shifted t k v \<Rightarrow> t)"

definition point_key :: "point \<Rightarrow> entity_key" where
  "point_key p = (case p of Event m \<Rightarrow> with_key m | Shifted t k v \<Rightarrow> k)"

text \<open>The input events among a list of points, in their order.\<close>

fun point_events :: "point list \<Rightarrow> message list" where
  "point_events [] = []"
| "point_events (Event m # ps) = m # point_events ps"
| "point_events (Shifted t k v # ps) = point_events ps"

text \<open>Modelled from the spec: the shifted points of a stream of events. Every event is
  appended to the buffer of its key; the value of \<^verbatim>\<open>conversations\<close> on that buffer is
  moved one second later.\<close>

fun shifted_points :: "buffers \<Rightarrow> message list \<Rightarrow> point list" where
  "shifted_points bufs [] = []"
| "shifted_points bufs (e # es) =
     (let k = with_key e; buf = bufs k @ [e]
      in Shifted (ts_parsed e + timedelta_seconds 1) k (conversations buf)
           # shifted_points (bufs(k := buf)) es)"

text \<open>Modelled from the spec: the events and their shifted points merged in time order
  (a stable sort: at equal times a shifted point comes before an event, and each kind
  keeps its stream order).\<close>

definition timeline :: "message list \<Rightarrow> point list" where
  "timeline evs = sort_key point_time (shifted_points (\<lambda>k. []) evs @ map Event evs)"

text \<open>Modelled from the spec: one incoming event is appended to the buffer of its key,
  then the row is derived from that buffer (section 4.2).\<close>

definition history_step :: "buffers \<Rightarrow> message \<Rightarrow> buffers \<times> history_row option" where
  "history_step bufs e =
     (let k = with_key e; buf = bufs k @ [e]
      in (bufs(k := buf), history_at buf e))"

text \<open>Modelled from the spec: the row of \<^verbatim>\<open>history\<close> at a shifted point. The conversation
  is the value shifted to this point, which is not null; the engaged users are read from
  the trailing window ending at the time of the point, over the buffer \<open>buf\<close> of the
  entity at that moment.\<close>

definition history_at_shifted ::
    "message list \<Rightarrow> time \<Rightarrow> entity_key \<Rightarrow> conv_msg list \<Rightarrow> history_row" where
  "history_at_shifted buf t k v =
     \<lparr>conversation = v,
      engaged_users = union_list (reaction_users buf t) (participating_users buf t),
      row_time = t,
      row_key = k\<rparr>"

text \<open>Modelled from the spec: the run of \<^verbatim>\<open>history\<close> over the points in time order, with
  one buffer per entity key. An event emits the row of \<open>history_step\<close>, if there is one;
  a shifted point emits its row and leaves the buffers as they are.\<close>

fun history_run :: "buffers \<Rightarrow> point list \<Rightarrow> history_row list" where
  "history_run bufs [] = []"
| "history_run bufs (Event e # ps) =
     (case history_step bufs e of
        (bufs', None) \<Rightarrow> history_run bufs' ps
      | (bufs', Some r) \<Rightarrow> r # history_run bufs' ps)"
| "history_run bufs (Shifted t k v # ps) =
     history_at_shifted (bufs k) t k v # history_run bufs ps"

text \<open>Modelled from the spec: \<^verbatim>\<open>history.run()\<close> on the rows of the input file, starting
  from empty buffers.\<close>

definition history :: "message list \<Rightarrow> history_row list" where
  "history rows = history_run (\<lambda>k. []) (timeline (messages_source rows))"

section \<open>Example encoding (cell ``Create training dataset'')\<close>

text \<open>\<^verbatim>\<open>history_df = history.run().to_pandas().drop(["_time", "_subsort", "_key_hash",
  "_key"], axis=1)\<close>\<close>

definition drop_columns :: "history_row \<Rightarrow> df_row" where
  "drop_columns r = \<lparr>conversation = conversation r, engaged_users = engaged_users r\<rparr>"

definition history_df :: "message list \<Rightarrow> df_row list" where
  "history_df rows = map drop_columns (history rows)"

text \<open>Modelled from the spec: the label encoder and the data-frame \<^verbatim>\<open>explode\<close> are
  library code outside the repository. \<^verbatim>\<open>explode\<close> turns each list into one row per
  element and an empty list into one missing value; \<^verbatim>\<open>le.fit\<close> assigns every distinct
  user an index in sorted order (a missing value, if any, comes last); \<^verbatim>\<open>le.transform\<close>
  fails on a label that was not fitted (the specification's \<^verbatim>\<open>UnknownUserError\<close>).\<close>

datatype error = UnknownUserError string

definition explode :: "string list list \<Rightarrow> string option list" where
  "explode xss = concat (map (\<lambda>xs. if xs = [] then [None] else map Some xs) xss)"

definition le_fit :: "string option list \<Rightarrow> string option list" where
  "le_fit ys =
     map Some (sort (remdups (concat (map (\<lambda>y. case y of None \<Rightarrow> [] | Some u \<Rightarrow> [u]) ys))))
     @ (if None \<in> set ys then [None] else [])"

fun index_of :: "'a \<Rightarrow> 'a list \<Rightarrow> nat option" where
  "index_of x [] = None"
| "index_of x (y # ys) = (if x = y then Some 0 else map_option Suc (index_of x ys))"

fun le_transform :: "string option list \<Rightarrow> string list \<Rightarrow> error + nat list" where
  "le_transform classes [] = Inr []"
| "le_transform classes (u # us) =
     (case index_of (Some u) classes of
        None \<Rightarrow> Inl (UnknownUserError u)
      | Some i \<Rightarrow>
          (case le_transform classes us of
             Inl err \<Rightarrow> Inl err
           | Inr is \<Rightarrow> Inr (i # is)))"

text \<open>\<^verbatim>\<open>.astype(str)\<close> on the integer indices: decimal digits, no sign, no padding.\<close>

definition digit_char :: "nat \<Rightarrow> char" where
  "digit_char d = ''0123456789'' ! d"

function str_nat :: "nat \<Rightarrow> string" where
  "str_nat n = (if n < 10 then [digit_char n] else str_nat (n div 10) @ [digit_char (n mod 10)])"
  by pat_completeness auto
termination
  by (relation "measure (\<lambda>n. n)") auto

declare str_nat.simps [simp del]

text \<open>Python's \<^verbatim>\<open>sep.join(parts)\<close>.\<close>

fun join :: "string \<Rightarrow> string list \<Rightarrow> string" where
  "join sep [] = []"
| "join sep [x] = x"
| "join sep (x # y # ys) = x @ sep @ join sep (y # ys)"

text \<open>\<^verbatim>\<open>def format_prompt(conversation):
    return "start -> " + "\n\n".join([f' {msg["user"]} --> {msg["text"]} '
                                      for msg in conversation]) + "\n\n###\n\n"\<close>\<close>

definition format_prompt :: "conv_msg list \<Rightarrow> string" where
  "format_prompt conv =
     ''start -> ''
     @ join [CHR 0x0A, CHR 0x0A] (map (\<lambda>msg. '' '' @ user msg @ '' --> '' @ msg_text msg @ '' '') conv)
     @ [CHR 0x0A, CHR 0x0A] @ ''###'' @ [CHR 0x0A, CHR 0x0A]"

text \<open>\<^verbatim>\<open>def format_completion(engaged_users):
    return " " + (" ".join(le.transform(engaged_users).astype(str))
                  if len(engaged_users) > 0 else "nil") + " end"\<close>\<close>

definition format_completion :: "string option list \<Rightarrow> string list \<Rightarrow> error + string" where
  "format_completion classes us =
     (if length us > 0 then
        (case le_transform classes us of
           Inl err \<Rightarrow> Inl err
         | Inr is \<Rightarrow> Inr ('' '' @ join '' '' (map str_nat is) @ '' end''))
      else Inr ('' '' @ ''nil'' @ '' end''))"

record example =
  prompt :: string
  completion :: string

text \<open>\<^verbatim>\<open>examples_df = pandas.DataFrame({"prompt": history_df.conversation.apply(format_prompt),
  "completion": history_df.engaged_users.apply(format_completion)})\<close>: the first failing
  row fails the whole frame.\<close>

fun examples_df :: "string option list \<Rightarrow> df_row list \<Rightarrow> error + example list" where
  "examples_df classes [] = Inr []"
| "examples_df classes (r # rs) =
     (case format_completion classes (engaged_users r) of
        Inl err \<Rightarrow> Inl err
      | Inr c \<Rightarrow>
          (case examples_df classes rs of
             Inl err \<Rightarrow> Inl err
           | Inr exs \<Rightarrow> Inr (\<lparr>prompt = format_prompt (conversation r), completion = c\<rparr> # exs)))"

text \<open>\<^verbatim>\<open>le.fit(history_df.engaged_users.explode())\<close>, the vocabulary written to
  \<^verbatim>\<open>labels_.json\<close>.\<close>

definition labels :: "df_row list \<Rightarrow> string option list" where
  "labels hdf = le_fit (explode (map engaged_users hdf))"

text \<open>The whole cell: the vocabulary and the examples written to the two output files.\<close>

definition pipeline :: "message list \<Rightarrow> error + (string option list \<times> example list)" where
  "pipeline rows =
     (let hdf = history_df rows; classes = labels hdf
      in case examples_df classes hdf of
           Inl err \<Rightarrow> Inl err
         | Inr exs \<Rightarrow> Inr (classes, exs))"

section \<open>The specification's wording\<close>

text \<open>The completion as the specification words it for a non-empty Engagement Set: the
  space-joined sorted integer indices of the engaged users, then the end marker. It is
  compared with \<open>format_completion\<close> below.\<close>

definition completion_spec :: "string option list \<Rightarrow> string list \<Rightarrow> error + string" where
  "completion_spec classes us =
     (case le_transform classes us of
        Inl err \<Rightarrow> Inl err
      | Inr is \<Rightarrow> Inr ('' '' @ join '' '' (map str_nat (sort is)) @ '' end''))"

text \<open>The round trip of section 8 decodes a completion through the persisted vocabulary.
  The notebook has no decoder; this one follows the specification's words: split the
  completion at spaces, require the end marker, read the sentinel \<^verbatim>\<open>nil\<close> as the empty
  set, and otherwise read every token as a decimal index into the vocabulary.\<close>

definition digit_val :: "char \<Rightarrow> nat option" where
  "digit_val c = index_of c ''0123456789''"

fun parse_nat_acc :: "nat \<Rightarrow> string \<Rightarrow> nat option" where
  "parse_nat_acc n [] = Some n"
| "parse_nat_acc n (c # cs) =
     (case digit_val c of None \<Rightarrow> None | Some d \<Rightarrow> parse_nat_acc (10 * n + d) cs)"

definition parse_nat :: "string \<Rightarrow> nat option" where
  "parse_nat s = (if s = [] then None else parse_nat_acc 0 s)"

fun split_words :: "string \<Rightarrow> string \<Rightarrow> string list" where
  "split_words cur [] = (if cur = [] then [] else [cur])"
| "split_words cur (c # cs) =
     (if c = CHR '' '' then (if cur = [] then split_words [] cs else cur # split_words [] cs)
      else split_words (cur @ [c]) cs)"

definition decode_index :: "string option list \<Rightarrow> string \<Rightarrow> string option" where
  "decode_index classes w =
     (case parse_nat w of
        None \<Rightarrow> None
      | Some i \<Rightarrow> if i < length classes then classes ! i else None)"

definition decode_completion :: "string option list \<Rightarrow> string \<Rightarrow> string list option" where
  "decode_completion classes s =
     (case rev (split_words [] s) of
        [] \<Rightarrow> None
      | e # ws \<Rightarrow>
          if e \<noteq> ''end'' then None
          else if ws = [''nil''] then Some []
          else those (map (decode_index classes) (rev ws)))"

section \<open>Concrete inputs\<close>

text \<open>The scenario of section 8: entity \<^verbatim>\<open>ch1\<close> with an event at \<open>t = 0\<close> (author A, text
  ``hi'') and an event at \<open>t = 1s\<close> (author B, text ``hey'', one reaction by C).\<close>

definition scenario_rows :: "message list" where
  "scenario_rows =
     [\<lparr>user = ''A'', ts = ''0'', msg_text = ''hi'', reactions = [],
       channel = ''ch1'', thread_ts = None, ts_parsed = 0\<rparr>,
      \<lparr>user = ''B'', ts = ''1'', msg_text = ''hey'',
       reactions = [\<lparr>reaction_name = ''thumbsup'', users = [''C'']\<rparr>],
       channel = ''ch1'', thread_ts = None, ts_parsed = timedelta_seconds 1\<rparr>]"

text \<open>The scenario with a message of a thread of the same channel and a message of a
  second channel in between.\<close>

definition thread_rows :: "message list" where
  "thread_rows =
     [\<lparr>user = ''A'', ts = ''0'', msg_text = ''hi'', reactions = [],
       channel = ''ch1'', thread_ts = None, ts_parsed = 0\<rparr>,
      \<lparr>user = ''T'', ts = ''0.5'', msg_text = ''re'', reactions = [],
       channel = ''ch1'', thread_ts = Some ''0'', ts_parsed = 500000000\<rparr>,
      \<lparr>user = ''D'', ts = ''0.5'', msg_text = ''yo'', reactions = [],
       channel = ''ch2'', thread_ts = None, ts_parsed = 500000000\<rparr>,
      \<lparr>user = ''B'', ts = ''1'', msg_text = ''hey'',
       reactions = [\<lparr>reaction_name = ''thumbsup'', users = [''C'']\<rparr>],
       channel = ''ch1'', thread_ts = None, ts_parsed = timedelta_seconds 1\<rparr>]"

text \<open>A buffer with 101 events inside one trailing window: one event at \<open>t = 0\<close>, then at
  \<open>t = 1s\<close> one event by user \<^verbatim>\<open>old\<close> followed by 100 events by user \<^verbatim>\<open>new\<close>.\<close>

definition crowded_event :: "string \<Rightarrow> time \<Rightarrow> message" where
  "crowded_event u t =
     \<lparr>user = u, ts = ''t'', msg_text = ''m'', reactions = [],
      channel = ''ch1'', thread_ts = None, ts_parsed = t\<rparr>"

definition crowded_buffer :: "message list" where
  "crowded_buffer =
     crowded_event ''A'' 0 # crowded_event ''old'' (timedelta_seconds 1)
       # replicate 100 (crowded_event ''new'' (timedelta_seconds 1))"

section \<open>Evaluation of the concrete inputs\<close>

lemmas aggregator_defs =
  history_def messages_source_def timeline_def point_time_def history_step_def with_key_def
  history_at_def history_at_shifted_def shifted_conversations_def shift_by_def as_of_def
  timedelta_seconds_def conversations_def collect_max_def select_fields_def
  reaction_users_def participating_users_def window_messages_def trailing_def
  union_list_def Let_def

lemmas encoder_defs =
  labels_def explode_def le_fit_def format_completion_def format_prompt_def digit_char_def
  str_nat.simps

lemma scenario_history:
  "history scenario_rows =
     [\<lparr>conversation = [\<lparr>user = ''A'', ts = ''0'', msg_text = ''hi'', reactions = []\<rparr>],
       engaged_users = [],
       row_time = timedelta_seconds 1,
       row_key = (''ch1'', None)\<rparr>,
      \<lparr>conversation = [\<lparr>user = ''A'', ts = ''0'', msg_text = ''hi'', reactions = []\<rparr>],
       engaged_users = [''C'', ''B''],
       row_time = timedelta_seconds 1,
       row_key = (''ch1'', None)\<rparr>,
      \<lparr>conversation = [\<lparr>user = ''A'', ts = ''0'', msg_text = ''hi'', reactions = []\<rparr>,
                       \<lparr>user = ''B'', ts = ''1'', msg_text = ''hey'',
                        reactions = [\<lparr>reaction_name = ''thumbsup'', users = [''C'']\<rparr>]\<rparr>],
       engaged_users = [],
       row_time = timedelta_seconds 2,
       row_key = (''ch1'', None)\<rparr>]"
  by (simp add: scenario_rows_def aggregator_defs)

lemma scenario_history_df:
  "history_df scenario_rows =
     [\<lparr>conversation = [\<lparr>user = ''A'', ts = ''0'', msg_text = ''hi'', reactions = []\<rparr>],
       engaged_users = []\<rparr>,
      \<lparr>conversation = [\<lparr>user = ''A'', ts = ''0'', msg_text = ''hi'', reactions = []\<rparr>],
       engaged_users = [''C'', ''B'']\<rparr>,
      \<lparr>conversation = [\<lparr>user = ''A'', ts = ''0'', msg_text = ''hi'', reactions = []\<rparr>,
                       \<lparr>user = ''B'', ts = ''1'', msg_text = ''hey'',
                        reactions = [\<lparr>reaction_name = ''thumbsup'', users = [''C'']\<rparr>]\<rparr>],
       engaged_users = []\<rparr>]"
  by (simp add: history_df_def scenario_history drop_columns_def)

lemma scenario_labels: "labels (history_df scenario_rows) = [Some ''B'', Some ''C'', None]"
  by (simp add: scenario_history_df labels_def explode_def le_fit_def)

lemma scenario_pipeline:
  "pipeline scenario_rows =
     Inr ([Some ''B'', Some ''C'', None],
          [\<lparr>prompt = ''start ->  A --> hi '' @ [CHR 0x0A, CHR 0x0A] @ ''###'' @ [CHR 0x0A, CHR 0x0A],
            completion = '' nil end''\<rparr>,
           \<lparr>prompt = ''start ->  A --> hi '' @ [CHR 0x0A, CHR 0x0A] @ ''###'' @ [CHR 0x0A, CHR 0x0A],
            completion = '' 1 0 end''\<rparr>,
           \<lparr>prompt = ''start ->  A --> hi '' @ [CHR 0x0A, CHR 0x0A] @ '' B --> hey ''
                       @ [CHR 0x0A, CHR 0x0A] @ ''###'' @ [CHR 0x0A, CHR 0x0A],
            completion = '' nil end''\<rparr>])"
  by (simp add: pipeline_def scenario_history_df encoder_defs)


lemma thread_history:
  "history thread_rows =
     [\<lparr>conversation = [\<lparr>user = ''A'', ts = ''0'', msg_text = ''hi'', reactions = []\<rparr>],
       engaged_users = [],
       row_time = timedelta_seconds 1,
       row_key = (''ch1'', None)\<rparr>,
      \<lparr>conversation = [\<lparr>user = ''A'', ts = ''0'', msg_text = ''hi'', reactions = []\<rparr>],
       engaged_users = [''C'', ''B''],
       row_time = timedelta_seconds 1,
       row_key = (''ch1'', None)\<rparr>,
      \<lparr>conversation = [\<lparr>user = ''T'', ts = ''0.5'', msg_text = ''re'', reactions = []\<rparr>],
       engaged_users = [],
       row_time = 1500000000,
       row_key = (''ch1'', Some ''0'')\<rparr>,
      \<lparr>conversation = [\<lparr>user = ''D'', ts = ''0.5'', msg_text = ''yo'', reactions = []\<rparr>],
       engaged_users = [],
       row_time = 1500000000,
       row_key = (''ch2'', None)\<rparr>,
      \<lparr>conversation = [\<lparr>user = ''A'', ts = ''0'', msg_text = ''hi'', reactions = []\<rparr>,
                       \<lparr>user = ''B'', ts = ''1'', msg_text = ''hey'',
                        reactions = [\<lparr>reaction_name = ''thumbsup'', users = [''C'']\<rparr>]\<rparr>],
       engaged_users = [],
       row_time = timedelta_seconds 2,
       row_key = (''ch1'', None)\<rparr>]"
  by (simp add: thread_rows_def aggregator_defs)

lemma remdups_replicate: "remdups (replicate n x) = (if n = 0 then [] else [x])"
  by (induction n) auto

lemma crowded_history_at:
  "history_at crowded_buffer (crowded_event ''new'' (timedelta_seconds 1)) =
     Some \<lparr>conversation = [\<lparr>user = ''A'', ts = ''t'', msg_text = ''m'', reactions = []\<rparr>],
           engaged_users = [''new''],
           row_time = timedelta_seconds 1,
           row_key = (''ch1'', None)\<rparr>"
  by (simp add: crowded_buffer_def crowded_event_def aggregator_defs remdups_replicate)

lemma crowded_window:
  "trailing (timedelta_seconds 1) (ts_parsed (crowded_event ''new'' (timedelta_seconds 1))) crowded_buffer
     = crowded_event ''old'' (timedelta_seconds 1)
       # replicate 100 (crowded_event ''new'' (timedelta_seconds 1))"
  by (simp add: crowded_buffer_def crowded_event_def trailing_def timedelta_seconds_def)

section \<open>Completion formatting\<close>

lemma index_of_Some: "index_of x xs = Some i \<Longrightarrow> i < length xs \<and> xs ! i = x"
  by (induction xs arbitrary: i) (auto split: if_splits)

lemma index_of_None: "index_of x xs = None \<longleftrightarrow> x \<notin> set xs"
  by (induction xs) auto

lemma le_transform_Inr:
  "le_transform classes us = Inr is \<Longrightarrow>
   length is = length us \<and> (\<forall>i\<in>set is. i < length classes) \<and> map ((!) classes) is = map Some us"
proof (induction us arbitrary: "is")
  case Nil
  then show ?case by simp
next
  case (Cons u us)
  then show ?case
    by (auto split: option.splits sum.splits dest: index_of_Some)
qed

lemma le_transform_total:
  "\<forall>u\<in>set us. Some u \<in> set classes \<Longrightarrow> \<exists>is. le_transform classes us = Inr is"
proof (induction us)
  case Nil
  show ?case by simp
next
  case (Cons u us)
  then obtain i where "index_of (Some u) classes = Some i"
    using index_of_None [of "Some u" classes] by (cases "index_of (Some u) classes") auto
  moreover from Cons obtain "is" where "le_transform classes us = Inr is" by auto
  ultimately show ?case by simp
qed

text \<open>
  C5: for an empty Engagement Set the completion is the sentinel \<^verbatim>\<open>nil\<close> between the
  leading space and the end marker, whatever the vocabulary; it is not the empty string.
\<close>

theorem format_completion_empty:
  "format_completion classes [] = Inr ('' '' @ ''nil'' @ '' end'')
   \<and> format_completion classes [] \<noteq> Inr ''''"
  by (simp add: format_completion_def)

text \<open>
  C2, as stated, fails: \<open>format_completion\<close> does not sort. With the vocabulary fitted on
  the engaged users C, B (in this order) the completion lists index 1 before index 0,
  where the specification's wording gives 0 before 1.
\<close>

theorem format_completion_order_counterexample:
  "format_completion (le_fit (explode [[''C'', ''B'']])) [''C'', ''B''] = Inr '' 1 0 end''
   \<and> completion_spec (le_fit (explode [[''C'', ''B'']])) [''C'', ''B''] = Inr '' 0 1 end''
   \<and> format_completion (le_fit (explode [[''C'', ''B'']])) [''C'', ''B'']
       \<noteq> completion_spec (le_fit (explode [[''C'', ''B'']])) [''C'', ''B'']"
  by (simp add: encoder_defs completion_spec_def)

text \<open>
  C2 (amended): for a non-empty Engagement Set whose users all have an index, the
  completion is a space, then the space-joined vocabulary indices of the engaged users in
  the order in which the engaged-users list holds them (one index per entry, each the
  position of that user in the vocabulary), then the end marker.
\<close>

theorem format_completion_nonempty:
  assumes "us \<noteq> []" and "le_transform classes us = Inr is"
  shows "format_completion classes us = Inr ('' '' @ join '' '' (map str_nat is) @ '' end'')
     \<and> length is = length us
     \<and> map ((!) classes) is = map Some us"
  using assms le_transform_Inr [OF assms(2)] by (simp add: format_completion_def)

text \<open>The amended statement at the vocabulary B, C and the engaged users C, B.\<close>

theorem format_completion_nonempty_witness:
  "[''C'', ''B''] \<noteq> [] \<and> le_transform [Some ''B'', Some ''C''] [''C'', ''B''] = Inr [1, 0]
   \<and> format_completion [Some ''B'', Some ''C''] [''C'', ''B''] = Inr '' 1 0 end''"
proof -
  have h1: "[''C'', ''B''] \<noteq> []" by simp
  have h2: "le_transform [Some ''B'', Some ''C''] [''C'', ''B''] = Inr [1, 0]" by simp
  show ?thesis
    using h1 h2 format_completion_nonempty [OF h1 h2] by (simp add: str_nat.simps digit_char_def)
qed

section \<open>The vocabulary covers the corpus\<close>

lemma explode_mem: "us \<in> set xss \<Longrightarrow> u \<in> set us \<Longrightarrow> Some u \<in> set (explode xss)"
  by (auto simp add: explode_def)

lemma le_fit_mem: "Some u \<in> set (le_fit ys) \<longleftrightarrow> Some u \<in> set ys"
  by (auto simp add: le_fit_def split: option.splits)

lemma labels_mem:
  "r \<in> set hdf \<Longrightarrow> u \<in> set (engaged_users r) \<Longrightarrow> Some u \<in> set (labels hdf)"
  by (simp add: labels_def le_fit_mem) (rule explode_mem [of "engaged_users r"], auto)

lemma format_completion_total:
  assumes "\<forall>u\<in>set us. Some u \<in> set classes"
  shows "\<exists>c. format_completion classes us = Inr c"
  using le_transform_total [OF assms] by (auto simp add: format_completion_def)

lemma examples_df_total:
  "\<forall>r\<in>set rs. \<forall>u\<in>set (engaged_users r). Some u \<in> set classes \<Longrightarrow>
   \<exists>exs. examples_df classes rs = Inr exs"
proof (induction rs)
  case Nil
  show ?case by simp
next
  case (Cons r rs)
  then obtain exs where "examples_df classes rs = Inr exs" by auto
  moreover obtain c where "format_completion classes (engaged_users r) = Inr c"
    using format_completion_total [of "engaged_users r" classes] Cons.prems by auto
  ultimately show ?case by simp
qed


text \<open>
  C9: the vocabulary is fitted on the engaged users of the very rows that are encoded, so
  for every corpus every engaged user of every row has an index, no completion fails
  with \<open>UnknownUserError\<close>, and the pipeline never returns an error.
\<close>

theorem labels_cover_engaged:
  "(\<forall>r\<in>set hdf. \<forall>u\<in>set (engaged_users r). \<exists>i. index_of (Some u) (labels hdf) = Some i)
   \<and> (\<forall>r\<in>set hdf. \<exists>c. format_completion (labels hdf) (engaged_users r) = Inr c)
   \<and> (\<exists>exs. pipeline rows = Inr (labels (history_df rows), exs))"
proof -
  have a: "\<forall>r\<in>set hdf. \<forall>u\<in>set (engaged_users r). \<exists>i. index_of (Some u) (labels hdf) = Some i"
  proof (intro ballI)
    fix r u assume "r \<in> set hdf" "u \<in> set (engaged_users r)"
    then have "Some u \<in> set (labels hdf)" by (rule labels_mem)
    then show "\<exists>i. index_of (Some u) (labels hdf) = Some i"
      using index_of_None [of "Some u" "labels hdf"] by (cases "index_of (Some u) (labels hdf)") auto
  qed
  have b: "\<forall>r\<in>set hdf. \<exists>c. format_completion (labels hdf) (engaged_users r) = Inr c"
    using labels_mem by (intro ballI format_completion_total) blast
  have "\<exists>exs. examples_df (labels (history_df rows)) (history_df rows) = Inr exs"
    using labels_mem by (intro examples_df_total) blast
  then have c: "\<exists>exs. pipeline rows = Inr (labels (history_df rows), exs)"
    by (auto simp add: pipeline_def Let_def)
  from a b c show ?thesis by blast
qed

text \<open>The statement at the corpus of the scenario.\<close>

theorem labels_cover_engaged_witness:
  "\<lparr>conversation = [\<lparr>user = ''A'', ts = ''0'', msg_text = ''hi'', reactions = []\<rparr>],
       engaged_users = [''C'', ''B'']\<rparr> \<in> set (history_df scenario_rows)
   \<and> (\<exists>i. index_of (Some ''C'') (labels (history_df scenario_rows)) = Some i)
   \<and> (\<exists>i. index_of (Some ''B'') (labels (history_df scenario_rows)) = Some i)
   \<and> (\<exists>c. format_completion (labels (history_df scenario_rows)) [''C'', ''B''] = Inr c)"
  using labels_cover_engaged [of "history_df scenario_rows" scenario_rows]
  by (simp add: scenario_history_df)

section \<open>Decoding a completion\<close>

lemma digit_cases: "d < 10 \<Longrightarrow> d \<in> {0, 1, 2, 3, 4, 5, 6, 7, 8, 9::nat}"
  by (simp add: numeral_eq_Suc less_Suc_eq)

lemma digit_char_props:
  assumes "d < 10"
  shows "digit_val (digit_char d) = Some d" and "digit_char d \<noteq> CHR '' ''"
    and "digit_char d \<noteq> CHR ''n''"
  using digit_cases [OF assms] by (safe; simp add: digit_val_def digit_char_def)+

lemma parse_nat_acc_snoc:
  "d < 10 \<Longrightarrow>
   parse_nat_acc n (xs @ [digit_char d]) = map_option (\<lambda>k. 10 * k + d) (parse_nat_acc n xs)"
  by (induction xs arbitrary: n) (auto simp add: digit_char_props split: option.splits)

lemma parse_nat_acc_str_nat: "parse_nat_acc 0 (str_nat n) = Some n"
proof (induction n rule: str_nat.induct)
  case (1 n)
  show ?case
  proof (cases "n < 10")
    case True
    then show ?thesis by (subst str_nat.simps) (simp add: digit_char_props)
  next
    case False
    then have ih: "parse_nat_acc 0 (str_nat (n div 10)) = Some (n div 10)" using 1 by simp
    have "n mod 10 < 10" by simp
    from parse_nat_acc_snoc [OF this, of 0 "str_nat (n div 10)"] ih False
    show ?thesis by (subst str_nat.simps) simp
  qed
qed

lemma str_nat_chars: "c \<in> set (str_nat n) \<Longrightarrow> c \<noteq> CHR '' '' \<and> c \<noteq> CHR ''n''"
proof (induction n rule: str_nat.induct)
  case (1 n)
  show ?case
  proof (cases "n < 10")
    case True
    with 1(2) show ?thesis by (subst (asm) str_nat.simps) (simp add: digit_char_props)
  next
    case False
    have m: "n mod 10 < 10" by simp
    from 1(2) False have "c \<in> set (str_nat (n div 10)) \<or> c = digit_char (n mod 10)"
      by (subst (asm) str_nat.simps) auto
    then show ?thesis using 1(1) [OF False] digit_char_props [OF m] by auto
  qed
qed

lemma str_nat_nonempty: "str_nat n \<noteq> []"
  by (subst str_nat.simps) simp

lemma parse_nat_str_nat: "parse_nat (str_nat n) = Some n"
  by (simp add: parse_nat_def str_nat_nonempty parse_nat_acc_str_nat)

lemma str_nat_not_nil: "str_nat n \<noteq> ''nil''"
proof
  assume "str_nat n = ''nil''"
  then have "CHR ''n'' \<in> set (str_nat n)" by simp
  then show False using str_nat_chars by blast
qed

lemma split_words_token:
  "CHR '' '' \<notin> set w \<Longrightarrow> split_words cur (w @ rest) = split_words (cur @ w) rest"
  by (induction w arbitrary: cur) auto

lemma split_words_tokens:
  "\<forall>w\<in>set ws. w \<noteq> [] \<and> CHR '' '' \<notin> set w \<Longrightarrow>
   split_words [] (concat (map ((#) CHR '' '') ws) @ '' end'') = ws @ [''end'']"
proof (induction ws)
  case Nil
  show ?case by simp
next
  case (Cons w ws)
  obtain rest where rest: "concat (map ((#) CHR '' '') ws) @ '' end'' = CHR '' '' # rest"
    by (cases ws) auto
  have w: "w \<noteq> []" "CHR '' '' \<notin> set w" using Cons.prems by auto
  have "split_words [] (concat (map ((#) CHR '' '') (w # ws)) @ '' end'')
          = split_words [] (w @ CHR '' '' # rest)"
    using rest by simp
  also have "\<dots> = split_words w (CHR '' '' # rest)"
    using split_words_token [OF w(2), of "[]"] by simp
  also have "\<dots> = w # split_words [] (CHR '' '' # rest)"
    using w(1) by simp
  also have "\<dots> = w # (ws @ [''end''])"
    using Cons.IH Cons.prems rest by simp
  finally show ?case by simp
qed

lemma join_concat:
  "ws \<noteq> [] \<Longrightarrow> sep @ join sep ws = concat (map (\<lambda>w. sep @ w) ws)"
  by (induction sep ws rule: join.induct) auto

lemma join_spaces:
  "ws \<noteq> [] \<Longrightarrow> '' '' @ join '' '' ws = concat (map ((#) CHR '' '') ws)"
  using join_concat [of ws "'' ''"] by simp

lemma those_map_Some: "those (map Some xs) = Some xs"
  by (induction xs) auto

lemma decode_index_str_nat:
  "i < length classes \<Longrightarrow> decode_index classes (str_nat i) = classes ! i"
  by (simp add: decode_index_def parse_nat_str_nat)

lemma decode_format_completion:
  assumes "format_completion classes us = Inr c"
  shows "decode_completion classes c = Some us"
proof (cases "us = []")
  case True
  with assms have "c = '' nil end''" by (simp add: format_completion_def)
  then show ?thesis using True by (simp add: decode_completion_def)
next
  case False
  with assms obtain "is" where tr: "le_transform classes us = Inr is"
    and c: "c = '' '' @ join '' '' (map str_nat is) @ '' end''"
    by (auto simp add: format_completion_def split: sum.splits)
  from le_transform_Inr [OF tr] have len: "length is = length us"
    and bound: "\<forall>i\<in>set is. i < length classes"
    and inv: "map ((!) classes) is = map Some us" by auto
  let ?ws = "map str_nat is"
  have ne: "?ws \<noteq> []" using False len by auto
  have toks: "\<forall>w\<in>set ?ws. w \<noteq> [] \<and> CHR '' '' \<notin> set w"
    using str_nat_nonempty str_nat_chars by auto
  have "c = concat (map ((#) CHR '' '') ?ws) @ '' end''"
    using join_spaces [OF ne] c by simp
  then have sp: "split_words [] c = ?ws @ [''end'']"
    using split_words_tokens [OF toks] by simp
  have "rev (rev ?ws) \<noteq> [''nil'']"
    using str_nat_not_nil by (auto simp add: map_eq_Cons_conv)
  then have nonil: "rev ?ws \<noteq> [''nil'']"
    by (metis rev.simps(1) rev.simps(2) append_Nil rev_rev_ident)
  have "map (decode_index classes) ?ws = map ((!) classes) is"
    using bound by (simp add: decode_index_str_nat)
  then have "those (map (decode_index classes) ?ws) = Some us"
    using inv those_map_Some by simp
  then show ?thesis
    using sp nonil by (simp add: decode_completion_def)
qed

lemma examples_df_decode:
  "examples_df classes rs = Inr exs \<Longrightarrow>
   map (\<lambda>ex. decode_completion classes (completion ex)) exs = map (\<lambda>r. Some (engaged_users r)) rs"
  by (induction rs arbitrary: exs) (auto split: sum.splits simp add: decode_format_completion)

text \<open>
  C3: whenever the pipeline writes a vocabulary and examples, the vocabulary is the one
  fitted on the history rows, there is one example per history row, and decoding the
  completion of each example through that vocabulary gives back, as a set, the
  Engagement Set of its row.
\<close>

theorem completion_roundtrip:
  assumes "pipeline rows = Inr (classes, exs)"
  shows "classes = labels (history_df rows)
     \<and> map (\<lambda>ex. map_option set (decode_completion classes (completion ex))) exs
         = map (\<lambda>r. Some (set (engaged_users r))) (history_df rows)"
proof -
  from assms have cl: "classes = labels (history_df rows)"
    and ex: "examples_df classes (history_df rows) = Inr exs"
    by (auto simp add: pipeline_def Let_def split: sum.splits)
  have "map (\<lambda>ex. map_option set (decode_completion classes (completion ex))) exs
      = map (map_option set) (map (\<lambda>ex. decode_completion classes (completion ex)) exs)"
    by simp
  also have "\<dots> = map (map_option set) (map (\<lambda>r. Some (engaged_users r)) (history_df rows))"
    using examples_df_decode [OF ex] by simp
  also have "\<dots> = map (\<lambda>r. Some (set (engaged_users r))) (history_df rows)"
    by simp
  finally show ?thesis using cl by simp
qed

text \<open>The round trip on the scenario: the completion \<^verbatim>\<open>" 1 0 end"\<close> decodes to C, B.\<close>

theorem completion_roundtrip_witness:
  "pipeline scenario_rows =
     Inr ([Some ''B'', Some ''C'', None],
          [\<lparr>prompt = ''start ->  A --> hi '' @ [CHR 0x0A, CHR 0x0A] @ ''###'' @ [CHR 0x0A, CHR 0x0A],
            completion = '' nil end''\<rparr>,
           \<lparr>prompt = ''start ->  A --> hi '' @ [CHR 0x0A, CHR 0x0A] @ ''###'' @ [CHR 0x0A, CHR 0x0A],
            completion = '' 1 0 end''\<rparr>,
           \<lparr>prompt = ''start ->  A --> hi '' @ [CHR 0x0A, CHR 0x0A] @ '' B --> hey ''
                       @ [CHR 0x0A, CHR 0x0A] @ ''###'' @ [CHR 0x0A, CHR 0x0A],
            completion = '' nil end''\<rparr>])
   \<and> map_option set (decode_completion [Some ''B'', Some ''C'', None] '' 1 0 end'')
       = Some {''C'', ''B''}
   \<and> map_option set (decode_completion [Some ''B'', Some ''C'', None] '' nil end'') = Some {}"
proof -
  note r = completion_roundtrip [OF scenario_pipeline, THEN conjunct2]
  from r have "map_option set (decode_completion [Some ''B'', Some ''C'', None] '' 1 0 end'')
                 = Some (set [''C'', ''B''])
      \<and> map_option set (decode_completion [Some ''B'', Some ''C'', None] '' nil end'') = Some (set [])"
    by (simp add: scenario_history_df)
  then show ?thesis using scenario_pipeline by simp
qed

section \<open>The scenario of section 8\<close>

text \<open>
  C1, as stated, fails on the prompt: \<open>format_prompt\<close> puts a space after the start
  marker and another one in front of every message, so every prompt has two spaces
  between \<^verbatim>\<open>start ->\<close> and the first author; the claimed string with one space is the
  prompt of no example of the scenario.
\<close>

theorem scenario_prompt_counterexample:
  "''start -> A --> hi '' @ [CHR 0x0A, CHR 0x0A] @ ''###'' @ [CHR 0x0A, CHR 0x0A]
     \<notin> set (map (\<lambda>r. format_prompt (conversation r)) (history_df scenario_rows))"
  by (simp add: scenario_history_df format_prompt_def)

text \<open>
  C1 (amended): on the scenario, the processing of the event of \<open>t = 1s\<close> (the step on
  the buffers left by the event of \<open>t = 0\<close>) emits exactly one row, which is a row of the
  run; its snapshot holds only the event of \<open>t = 0\<close>, its Engagement Set is \<open>{B, C}\<close>,
  its completion lists the indices of C and B in the vocabulary of the run, and its
  prompt is \<^verbatim>\<open>"start ->  A --> hi \n\n###\n\n"\<close> with two spaces after the start marker.
\<close>

theorem scenario_example:
  "snd (history_step (fst (history_step (\<lambda>k. []) (scenario_rows ! 0))) (scenario_rows ! 1))
     = Some \<lparr>conversation = [select_fields (scenario_rows ! 0)],
             engaged_users = [''C'', ''B''],
             row_time = timedelta_seconds 1,
             row_key = (''ch1'', None)\<rparr>
   \<and> \<lparr>conversation = [select_fields (scenario_rows ! 0)],
       engaged_users = [''C'', ''B''],
       row_time = timedelta_seconds 1,
       row_key = (''ch1'', None)\<rparr> \<in> set (history scenario_rows)
   \<and> set [''C'', ''B''] = {''B'', ''C''}
   \<and> format_prompt [select_fields (scenario_rows ! 0)]
       = ''start ->  A --> hi '' @ [CHR 0x0A, CHR 0x0A] @ ''###'' @ [CHR 0x0A, CHR 0x0A]
   \<and> format_completion (labels (history_df scenario_rows)) [''C'', ''B''] = Inr '' 1 0 end''
   \<and> index_of (Some ''B'') (labels (history_df scenario_rows)) = Some 0
   \<and> index_of (Some ''C'') (labels (history_df scenario_rows)) = Some 1"
proof -
  have sel: "select_fields (scenario_rows ! 0)
      = \<lparr>user = ''A'', ts = ''0'', msg_text = ''hi'', reactions = []\<rparr>"
    by (simp add: scenario_rows_def select_fields_def)
  have step: "snd (history_step (fst (history_step (\<lambda>k. []) (scenario_rows ! 0))) (scenario_rows ! 1))
     = Some \<lparr>conversation = [select_fields (scenario_rows ! 0)],
             engaged_users = [''C'', ''B''],
             row_time = timedelta_seconds 1,
             row_key = (''ch1'', None)\<rparr>"
    unfolding sel by (simp add: scenario_rows_def aggregator_defs)
  have mem: "\<lparr>conversation = [select_fields (scenario_rows ! 0)],
       engaged_users = [''C'', ''B''],
       row_time = timedelta_seconds 1,
       row_key = (''ch1'', None)\<rparr> \<in> set (history scenario_rows)"
    unfolding sel by (simp add: scenario_history)
  have us: "set [''C'', ''B''] = {''B'', ''C''}" by auto
  have pr: "format_prompt [select_fields (scenario_rows ! 0)]
       = ''start ->  A --> hi '' @ [CHR 0x0A, CHR 0x0A] @ ''###'' @ [CHR 0x0A, CHR 0x0A]"
    unfolding sel by (simp add: format_prompt_def)
  have co: "format_completion (labels (history_df scenario_rows)) [''C'', ''B''] = Inr '' 1 0 end''"
    by (simp add: scenario_labels format_completion_def str_nat.simps digit_char_def)
  have ix: "index_of (Some ''B'') (labels (history_df scenario_rows)) = Some 0"
    "index_of (Some ''C'') (labels (history_df scenario_rows)) = Some 1"
    by (simp_all add: scenario_labels)
  from step mem us pr co ix show ?thesis by blast
qed

section \<open>Window aggregation: the timeline\<close>

lemma point_events_append: "point_events (ps @ qs) = point_events ps @ point_events qs"
  by (induction ps rule: point_events.induct) auto

lemma point_events_map_Event: "point_events (map Event ms) = ms"
  by (induction ms) auto

lemma point_events_filter:
  "filter (\<lambda>p. case p of Event m \<Rightarrow> True | Shifted t k v \<Rightarrow> False) ps = map Event (point_events ps)"
  by (induction ps rule: point_events.induct) auto

lemma point_events_shifted_points: "point_events (shifted_points bufs es) = []"
  by (induction es arbitrary: bufs) (auto simp add: Let_def)

lemma insort_key_map_Event:
  "insort_key point_time (Event m) (map Event ms) = map Event (insort_key ts_parsed m ms)"
  by (induction ms) (auto simp add: point_time_def)

lemma sort_key_map_Event:
  "sort_key point_time (map Event ms) = map Event (sort_key ts_parsed ms)"
  by (induction ms) (auto simp add: insort_key_map_Event)

lemma point_events_sort_key:
  "point_events (sort_key point_time ps) = sort_key ts_parsed (point_events ps)"
proof -
  let ?ev = "\<lambda>p. case p of Event m \<Rightarrow> True | Shifted t k v \<Rightarrow> False"
  have "map Event (point_events (sort_key point_time ps)) = filter ?ev (sort_key point_time ps)"
    by (simp add: point_events_filter)
  also have "\<dots> = sort_key point_time (filter ?ev ps)" by (rule filter_sort)
  also have "\<dots> = sort_key point_time (map Event (point_events ps))"
    by (simp add: point_events_filter)
  also have "\<dots> = map Event (sort_key ts_parsed (point_events ps))"
    by (rule sort_key_map_Event)
  finally have "point_events (map Event (point_events (sort_key point_time ps)))
      = point_events (map Event (sort_key ts_parsed (point_events ps)))" by simp
  then show ?thesis by (simp only: point_events_map_Event)
qed

lemma point_events_timeline:
  "sorted (map ts_parsed evs) \<Longrightarrow> point_events (timeline evs) = evs"
  by (simp add: timeline_def point_events_sort_key point_events_append
      point_events_shifted_points point_events_map_Event sort_key_id_if_sorted)

lemma set_timeline: "set (timeline evs) = set (shifted_points (\<lambda>k. []) evs) \<union> Event ` set evs"
  by (simp add: timeline_def)

lemma shifted_points_mem:
  "Shifted t k v \<in> set (shifted_points bufs es) \<Longrightarrow>
   \<exists>pre org post. es = pre @ org # post \<and> t = ts_parsed org + timedelta_seconds 1 \<and> k = with_key org
     \<and> v = conversations (bufs k @ filter (\<lambda>m. with_key m = k) pre @ [org])"
proof (induction es arbitrary: bufs)
  case Nil
  then show ?case by simp
next
  case (Cons e es)
  let ?bufs' = "bufs(with_key e := bufs (with_key e) @ [e])"
  from Cons.prems consider
    (here) "t = ts_parsed e + timedelta_seconds 1" "k = with_key e"
           "v = conversations (bufs (with_key e) @ [e])"
    | (later) "Shifted t k v \<in> set (shifted_points ?bufs' es)"
    by (auto simp add: Let_def)
  then show ?case
  proof cases
    case here
    have "e # es = [] @ e # es" by simp
    moreover have "v = conversations (bufs k @ filter (\<lambda>m. with_key m = k) [] @ [e])"
      using here by simp
    ultimately show ?thesis using here by blast
  next
    case later
    from Cons.IH [OF later] obtain pre org post where es: "es = pre @ org # post"
      and t: "t = ts_parsed org + timedelta_seconds 1" and k: "k = with_key org"
      and v: "v = conversations (?bufs' k @ filter (\<lambda>m. with_key m = k) pre @ [org])"
      by blast
    have "?bufs' k @ filter (\<lambda>m. with_key m = k) pre
        = bufs k @ filter (\<lambda>m. with_key m = k) (e # pre)"
      by auto
    with v have "v = conversations (bufs k @ filter (\<lambda>m. with_key m = k) (e # pre) @ [org])"
      by (metis append.assoc)
    moreover have "e # es = (e # pre) @ org # post" using es by simp
    ultimately show ?thesis using t k by blast
  qed
qed

lemma history_at_key:
  "history_at buf e = Some r \<Longrightarrow> row_key r = with_key e \<and> row_time r = ts_parsed e"
  by (auto simp add: history_at_def split: option.splits)

lemma history_run_Event:
  "history_run bufs (Event e # ps) =
     (case history_at (bufs (with_key e) @ [e]) e of None \<Rightarrow> [] | Some r \<Rightarrow> [r])
     @ history_run (bufs(with_key e := bufs (with_key e) @ [e])) ps"
  by (simp add: history_step_def Let_def split: option.splits)

text \<open>Every emitted row is derived either at an event \<open>e\<close> of the timeline, from the
  buffer of the key of \<open>e\<close> (the initial buffer, the earlier events of that key, and
  \<open>e\<close>), or at a shifted point of the timeline.\<close>

lemma history_run_row:
  "r \<in> set (history_run bufs ps) \<Longrightarrow>
   (\<exists>pre e post. ps = pre @ Event e # post
     \<and> history_at (bufs (with_key e) @ filter (\<lambda>m. with_key m = with_key e) (point_events pre) @ [e]) e
         = Some r)
   \<or> (\<exists>t k v buf. Shifted t k v \<in> set ps \<and> r = history_at_shifted buf t k v)"
proof (induction ps arbitrary: bufs rule: point_events.induct)
  case 1
  then show ?case by simp
next
  case (2 e ps)
  let ?k = "with_key e"
  let ?bufs' = "bufs(?k := bufs ?k @ [e])"
  from "2.prems" consider
    (here) "history_at (bufs ?k @ [e]) e = Some r" | (later) "r \<in> set (history_run ?bufs' ps)"
    unfolding history_run_Event by (auto split: option.splits)
  then show ?case
  proof cases
    case here
    have "Event e # ps = [] @ Event e # ps" by simp
    moreover have "history_at (bufs ?k @ filter (\<lambda>m. with_key m = ?k) (point_events []) @ [e]) e = Some r"
      using here by simp
    ultimately show ?thesis by blast
  next
    case later
    from "2.IH" [OF later] consider
      (ev) pre e' post where "ps = pre @ Event e' # post"
        "history_at (?bufs' (with_key e') @ filter (\<lambda>m. with_key m = with_key e') (point_events pre) @ [e']) e' = Some r"
      | (sh) t k v buf where "Shifted t k v \<in> set ps" "r = history_at_shifted buf t k v"
      by blast
    then show ?thesis
    proof cases
      case ev
      have "?bufs' (with_key e') @ filter (\<lambda>m. with_key m = with_key e') (point_events pre)
          = bufs (with_key e') @ filter (\<lambda>m. with_key m = with_key e') (point_events (Event e # pre))"
        by auto
      with ev(2) have "history_at (bufs (with_key e')
          @ filter (\<lambda>m. with_key m = with_key e') (point_events (Event e # pre)) @ [e']) e' = Some r"
        by (metis append.assoc)
      moreover have "Event e # ps = (Event e # pre) @ Event e' # post" using ev(1) by simp
      ultimately show ?thesis by blast
    next
      case sh
      have "Shifted t k v \<in> set (Event e # ps)" using sh(1) by simp
      then show ?thesis using sh(2) by blast
    qed
  qed
next
  case (3 t k v ps)
  from "3.prems" consider
    (here) "r = history_at_shifted (bufs k) t k v" | (later) "r \<in> set (history_run bufs ps)"
    by auto
  then show ?case
  proof cases
    case here
    have "Shifted t k v \<in> set (Shifted t k v # ps)" by simp
    then show ?thesis using here by blast
  next
    case later
    from "3.IH" [OF later] consider
      (ev) pre e' post where "ps = pre @ Event e' # post"
        "history_at (bufs (with_key e') @ filter (\<lambda>m. with_key m = with_key e') (point_events pre) @ [e']) e' = Some r"
      | (sh) t' k' v' buf where "Shifted t' k' v' \<in> set ps" "r = history_at_shifted buf t' k' v'"
      by blast
    then show ?thesis
    proof cases
      case ev
      have "Shifted t k v # ps = (Shifted t k v # pre) @ Event e' # post" using ev(1) by simp
      moreover have "point_events (Shifted t k v # pre) = point_events pre" by simp
      ultimately show ?thesis using ev(2) by metis
    next
      case sh
      have "Shifted t' k' v' \<in> set (Shifted t k v # ps)" using sh(1) by simp
      then show ?thesis using sh(2) by blast
    qed
  qed
qed

lemma filter_holds: "x \<in> set (filter P xs) \<Longrightarrow> P x"
  by simp

lemma snapshot_of_prefix:
  assumes srt: "sorted (map ts_parsed xs)" and past: "past = filter P xs" and ne: "past \<noteq> []"
    and ms: "ms = drop (length past - 20) past"
  shows "ms \<noteq> []" and "length ms \<le> 20" and "sorted (map ts_parsed ms)"
    and "set ms \<subseteq> set xs" and "\<forall>m\<in>set ms. P m"
    and "collect_max 20 (map select_fields past) = map select_fields ms"
proof -
  have "0 < length past" using ne by simp
  then have "length past - 20 < length past" by arith
  then show "ms \<noteq> []" by (simp add: ms)
  show "length ms \<le> 20" by (simp add: ms)
  have "sorted (map ts_parsed past)" unfolding past using srt by (rule sorted_filter)
  then show "sorted (map ts_parsed ms)" unfolding ms by (simp add: sorted_map)
  have in_ms: "set ms \<subseteq> set past" unfolding ms by (rule set_drop_subset)
  have "set past \<subseteq> set xs" unfolding past by (rule filter_is_subset)
  with in_ms show "set ms \<subseteq> set xs" by blast
  have "\<forall>m\<in>set past. P m" unfolding past by (blast dest: filter_holds)
  with in_ms show "\<forall>m\<in>set ms. P m" by blast
  show "collect_max 20 (map select_fields past) = map select_fields ms"
    by (simp add: collect_max_def ms drop_map)
qed

lemma history_at_snapshot:
  assumes "history_at buf e = Some r"
  defines "past \<equiv> filter (\<lambda>m. ts_parsed m \<le> ts_parsed e - timedelta_seconds 1) buf"
  shows "past \<noteq> []" and "conversation r = collect_max 20 (map select_fields past)"
  using assms
  by (auto simp add: history_at_def shifted_conversations_def shift_by_def as_of_def
      conversations_def Let_def split: option.splits if_splits)

lemma history_row_events:
  assumes "r \<in> set (history rows)"
  obtains e ms where "e \<in> set rows" and "row_key r = with_key e"
    and "row_time r = ts_parsed e \<or> row_time r = ts_parsed e + timedelta_seconds 1"
    and "conversation r = map select_fields ms" and "ms \<noteq> []" and "length ms \<le> 20"
    and "sorted (map ts_parsed ms)" and "set ms \<subseteq> set rows"
    and "\<forall>m\<in>set ms. with_key m = with_key e \<and> ts_parsed m \<le> row_time r - timedelta_seconds 1"
proof -
  define evs where "evs = sort_key ts_parsed rows"
  have srt: "sorted (map ts_parsed evs)" and set_evs: "set evs = set rows"
    by (simp_all add: evs_def)
  have run: "r \<in> set (history_run (\<lambda>k. []) (timeline evs))"
    using assms by (simp add: history_def messages_source_def evs_def)
  from history_run_row [OF run] consider
    (ev) pre e post where "timeline evs = pre @ Event e # post"
      "history_at (filter (\<lambda>m. with_key m = with_key e) (point_events pre) @ [e]) e = Some r"
    | (sh) t k v buf where "Shifted t k v \<in> set (timeline evs)" "r = history_at_shifted buf t k v"
    by auto
  then show ?thesis
  proof cases
    case ev
    let ?P = "\<lambda>m. with_key m = with_key e \<and> ts_parsed m \<le> ts_parsed e - timedelta_seconds 1"
    define xs where "xs = point_events pre @ [e]"
    define past where "past = filter ?P xs"
    define ms where "ms = drop (length past - 20) past"
    have "point_events (timeline evs) = point_events pre @ e # point_events post"
      using ev(1) by (simp add: point_events_append)
    then have evs: "evs = point_events pre @ e # point_events post"
      using point_events_timeline [OF srt] by simp
    have "sorted (map ts_parsed (point_events pre @ e # point_events post))"
      using srt evs by simp
    then have sx: "sorted (map ts_parsed xs)" by (simp add: xs_def sorted_append)
    have e: "e \<in> set rows" and sub: "set xs \<subseteq> set rows"
      using evs set_evs by (auto simp add: xs_def)
    have buf: "filter (\<lambda>m. with_key m = with_key e) (point_events pre) @ [e]
        = filter (\<lambda>m. with_key m = with_key e) xs" by (simp add: xs_def)
    have pf: "filter (\<lambda>m. ts_parsed m \<le> ts_parsed e - timedelta_seconds 1)
        (filter (\<lambda>m. with_key m = with_key e) xs) = past"
      by (simp add: past_def)
    note hs = history_at_snapshot [OF ev(2) [unfolded buf], unfolded pf]
    have ne: "past \<noteq> []" by (rule hs(1))
    have conv: "conversation r = collect_max 20 (map select_fields past)" by (rule hs(2))
    note sp = snapshot_of_prefix [OF sx past_def ne ms_def]
    have key: "row_key r = with_key e" and time: "row_time r = ts_parsed e"
      using history_at_key [OF ev(2)] by simp_all
    have "conversation r = map select_fields ms" using conv sp(6) by simp
    moreover have "set ms \<subseteq> set rows" using sp(4) sub by blast
    moreover have "\<forall>m\<in>set ms. with_key m = with_key e
        \<and> ts_parsed m \<le> row_time r - timedelta_seconds 1"
      using sp(5) time by simp
    ultimately show ?thesis
      using that [of e ms] e key time sp(1,2,3) by blast
  next
    case sh
    have "Shifted t k v \<in> set (shifted_points (\<lambda>k. []) evs)"
      using sh(1) by (auto simp add: set_timeline)
    from shifted_points_mem [OF this] obtain pre org post where evs: "evs = pre @ org # post"
      and t: "t = ts_parsed org + timedelta_seconds 1" and k: "k = with_key org"
      and v: "v = conversations (filter (\<lambda>m. with_key m = k) pre @ [org])"
      by auto
    let ?P = "\<lambda>m. with_key m = with_key org"
    define xs where "xs = pre @ [org]"
    define past where "past = filter ?P xs"
    define ms where "ms = drop (length past - 20) past"
    have "sorted (map ts_parsed (pre @ org # post))" using srt evs by simp
    then have sx: "sorted (map ts_parsed xs)"
      and le: "\<forall>m\<in>set xs. ts_parsed m \<le> ts_parsed org"
      by (auto simp add: xs_def sorted_append)
    have org: "org \<in> set rows" and sub: "set xs \<subseteq> set rows"
      using evs set_evs by (auto simp add: xs_def)
    have past: "filter (\<lambda>m. with_key m = k) pre @ [org] = past"
      by (simp add: past_def xs_def k)
    have ne: "past \<noteq> []" using past [symmetric] by simp
    note sp = snapshot_of_prefix [OF sx past_def ne ms_def]
    have key: "row_key r = with_key org" and time: "row_time r = ts_parsed org + timedelta_seconds 1"
      and conv: "conversation r = v"
      using sh(2) t k by (simp_all add: history_at_shifted_def)
    have "conversation r = map select_fields ms"
      using conv v past sp(6) by (simp add: conversations_def)
    moreover have "set ms \<subseteq> set rows" using sp(4) sub by blast
    moreover have "\<forall>m\<in>set ms. with_key m = with_key org
        \<and> ts_parsed m \<le> row_time r - timedelta_seconds 1"
      using sp(4,5) le time by auto
    ultimately show ?thesis
      using that [of org ms] org key time sp(1,2,3) by blast
  qed
qed

section \<open>Snapshots\<close>

text \<open>
  C6: the snapshot of every emitted row holds at most 20 selected messages, and it is the
  projection of a list of input events whose timestamps are non-decreasing (all of them
  at or before the row's time minus the shift delay); it is never empty.
\<close>

theorem snapshot_bounded_sorted:
  assumes "r \<in> set (history rows)"
  shows "length (conversation r) \<le> 20 \<and> conversation r \<noteq> []
     \<and> (\<exists>ms. conversation r = map select_fields ms \<and> set ms \<subseteq> set rows
            \<and> sorted (map ts_parsed ms)
            \<and> (\<forall>m\<in>set ms. ts_parsed m \<le> row_time r - timedelta_seconds 1))"
proof -
  from assms obtain e ms where
    "conversation r = map select_fields ms" and "ms \<noteq> []" and "length ms \<le> 20"
    and "sorted (map ts_parsed ms)" and "set ms \<subseteq> set rows"
    and "\<forall>m\<in>set ms. with_key m = with_key e \<and> ts_parsed m \<le> row_time r - timedelta_seconds 1"
    by (rule history_row_events)
  then show ?thesis by auto
qed

text \<open>The bound on the row that the scenario emits at the event of \<open>t = 1s\<close>.\<close>

theorem snapshot_bounded_sorted_witness:
  "\<lparr>conversation = [\<lparr>user = ''A'', ts = ''0'', msg_text = ''hi'', reactions = []\<rparr>],
       engaged_users = [''C'', ''B''],
       row_time = timedelta_seconds 1,
       row_key = (''ch1'', None)\<rparr> \<in> set (history scenario_rows)
   \<and> length [\<lparr>user = ''A'', ts = ''0'', msg_text = ''hi'', reactions = []\<rparr>] \<le> 20"
proof -
  let ?r = "\<lparr>conversation = [\<lparr>user = ''A'', ts = ''0'', msg_text = ''hi'', reactions = []\<rparr>],
       engaged_users = [''C'', ''B''],
       row_time = timedelta_seconds 1,
       row_key = (''ch1'', None)\<rparr>"
  have h: "?r \<in> set (history scenario_rows)" by (simp add: scenario_history)
  from snapshot_bounded_sorted [OF h] have "length (conversation ?r) \<le> 20" by blast
  with h show ?thesis by simp
qed

section \<open>Entities are independent\<close>

lemma shifted_points_filter_key:
  "bufs k = bufs' k \<Longrightarrow>
   filter (\<lambda>p. point_key p = k) (shifted_points bufs es)
     = shifted_points bufs' (filter (\<lambda>m. with_key m = k) es)"
proof (induction es arbitrary: bufs bufs')
  case Nil
  show ?case by simp
next
  case (Cons e es)
  show ?case
  proof (cases "with_key e = k")
    case True
    have "filter (\<lambda>p. point_key p = k) (shifted_points (bufs(k := bufs k @ [e])) es)
        = shifted_points (bufs'(k := bufs' k @ [e])) (filter (\<lambda>m. with_key m = k) es)"
      by (rule Cons.IH) (simp add: Cons.prems)
    then show ?thesis using True Cons.prems by (simp add: Let_def point_key_def)
  next
    case False
    have "filter (\<lambda>p. point_key p = k) (shifted_points (bufs(with_key e := bufs (with_key e) @ [e])) es)
        = shifted_points bufs' (filter (\<lambda>m. with_key m = k) es)"
      by (rule Cons.IH) (use False Cons.prems in auto)
    then show ?thesis using False by (simp add: Let_def point_key_def)
  qed
qed

lemma timeline_filter_key:
  "filter (\<lambda>p. point_key p = k) (timeline evs) = timeline (filter (\<lambda>m. with_key m = k) evs)"
proof -
  have "filter (\<lambda>p. point_key p = k) (map Event evs) = map Event (filter (\<lambda>m. with_key m = k) evs)"
    by (induction evs) (auto simp add: point_key_def)
  then show ?thesis
    unfolding timeline_def
    by (simp add: filter_sort shifted_points_filter_key [of "\<lambda>k. []" k "\<lambda>k. []"])
qed

lemma history_run_filter_key:
  "bufs k = bufs' k \<Longrightarrow>
   filter (\<lambda>r. row_key r = k) (history_run bufs ps)
     = history_run bufs' (filter (\<lambda>p. point_key p = k) ps)"
proof (induction ps arbitrary: bufs bufs' rule: point_events.induct)
  case 1
  show ?case by simp
next
  case (2 e ps)
  show ?case
  proof (cases "with_key e = k")
    case True
    have "filter (\<lambda>r. row_key r = k) (history_run (bufs(k := bufs k @ [e])) ps)
        = history_run (bufs'(k := bufs' k @ [e])) (filter (\<lambda>p. point_key p = k) ps)"
      by (rule "2.IH") (simp add: "2.prems")
    then show ?thesis
      using True "2.prems"
      by (auto simp add: history_run_Event point_key_def simp del: history_run.simps
          split: option.splits dest: history_at_key)
  next
    case False
    have "filter (\<lambda>r. row_key r = k) (history_run (bufs(with_key e := bufs (with_key e) @ [e])) ps)
        = history_run bufs' (filter (\<lambda>p. point_key p = k) ps)"
      by (rule "2.IH") (use False "2.prems" in auto)
    then show ?thesis
      using False
      by (auto simp add: history_run_Event point_key_def simp del: history_run.simps
          split: option.splits dest: history_at_key)
  qed
next
  case (3 t k' v ps)
  have "filter (\<lambda>r. row_key r = k) (history_run bufs ps)
      = history_run bufs' (filter (\<lambda>p. point_key p = k) ps)"
    by (rule "3.IH") (rule "3.prems")
  then show ?case using "3.prems" by (simp add: point_key_def history_at_shifted_def)
qed

lemma history_filter_key:
  "filter (\<lambda>r. row_key r = k) (history rows) = history (filter (\<lambda>m. with_key m = k) rows)"
proof -
  have "history (filter (\<lambda>m. with_key m = k) rows)
      = history_run (\<lambda>k. []) (timeline (filter (\<lambda>m. with_key m = k) (sort_key ts_parsed rows)))"
    by (simp add: history_def messages_source_def filter_sort)
  also have "\<dots> = history_run (\<lambda>k. []) (filter (\<lambda>p. point_key p = k) (timeline (sort_key ts_parsed rows)))"
    by (simp add: timeline_filter_key)
  also have "\<dots> = filter (\<lambda>r. row_key r = k) (history_run (\<lambda>k. []) (timeline (sort_key ts_parsed rows)))"
    by (rule history_run_filter_key [symmetric]) simp
  finally show ?thesis by (simp add: history_def messages_source_def)
qed

text \<open>
  C7: every emitted row carries the entity key of the event that triggered it, which is
  that event's channel together with its thread identifier; the snapshot of the row is
  the projection of input events that all have this channel and this thread identifier;
  and the rows emitted for one channel and thread in a run over all entities are
  exactly the rows of a run over the events of that channel and thread alone, so nothing
  is merged across entities.
\<close>

theorem snapshot_same_entity:
  "(\<forall>r\<in>set (history rows). \<exists>e\<in>set rows. row_key r = (channel e, thread_ts e)
        \<and> (row_time r = ts_parsed e \<or> row_time r = ts_parsed e + timedelta_seconds 1)
        \<and> (\<exists>ms. conversation r = map select_fields ms \<and> set ms \<subseteq> set rows
              \<and> (\<forall>m\<in>set ms. channel m = channel e \<and> thread_ts m = thread_ts e)))
   \<and> filter (\<lambda>r. row_key r = (c, th)) (history rows)
       = history (filter (\<lambda>m. channel m = c \<and> thread_ts m = th) rows)"
proof -
  have a: "\<exists>e\<in>set rows. row_key r = (channel e, thread_ts e)
        \<and> (row_time r = ts_parsed e \<or> row_time r = ts_parsed e + timedelta_seconds 1)
        \<and> (\<exists>ms. conversation r = map select_fields ms \<and> set ms \<subseteq> set rows
              \<and> (\<forall>m\<in>set ms. channel m = channel e \<and> thread_ts m = thread_ts e))"
    if "r \<in> set (history rows)" for r
  proof -
    from that obtain e ms where e: "e \<in> set rows" and key: "row_key r = with_key e"
      and time: "row_time r = ts_parsed e \<or> row_time r = ts_parsed e + timedelta_seconds 1"
      and conv: "conversation r = map select_fields ms" and sub: "set ms \<subseteq> set rows"
      and ms: "\<forall>m\<in>set ms. with_key m = with_key e \<and> ts_parsed m \<le> row_time r - timedelta_seconds 1"
      by (rule history_row_events)
    from ms have "\<forall>m\<in>set ms. channel m = channel e \<and> thread_ts m = thread_ts e"
      by (simp add: with_key_def)
    with e key time conv sub show ?thesis by (auto simp add: with_key_def)
  qed
  have "(\<lambda>m. with_key m = (c, th)) = (\<lambda>m. channel m = c \<and> thread_ts m = th)"
    by (auto simp add: with_key_def)
  with history_filter_key [of "(c, th)" rows]
  have b: "filter (\<lambda>r. row_key r = (c, th)) (history rows)
       = history (filter (\<lambda>m. channel m = c \<and> thread_ts m = th) rows)"
    by simp
  from a b show ?thesis by blast
qed

text \<open>A channel with a thread and a second channel: the rows of the channel outside the
  thread are those of the scenario alone, and the thread message T is in no snapshot of
  theirs; the rows of the thread are those of the thread message alone.\<close>

theorem snapshot_same_entity_witness:
  "filter (\<lambda>r. row_key r = (''ch1'', None)) (history thread_rows) = history scenario_rows
   \<and> filter (\<lambda>r. row_key r = (''ch1'', Some ''0'')) (history thread_rows)
       = history [thread_rows ! 1]
   \<and> history [thread_rows ! 1]
       = [\<lparr>conversation = [\<lparr>user = ''T'', ts = ''0.5'', msg_text = ''re'', reactions = []\<rparr>],
           engaged_users = [],
           row_time = 1500000000,
           row_key = (''ch1'', Some ''0'')\<rparr>]
   \<and> length (history thread_rows) = 5"
proof -
  have f1: "filter (\<lambda>m. channel m = ''ch1'' \<and> thread_ts m = None) thread_rows = scenario_rows"
    by (simp add: thread_rows_def scenario_rows_def)
  have f2: "filter (\<lambda>m. channel m = ''ch1'' \<and> thread_ts m = Some ''0'') thread_rows
      = [thread_rows ! 1]"
    by (simp add: thread_rows_def)
  from snapshot_same_entity [of thread_rows "''ch1''" None, THEN conjunct2] f1
  have a: "filter (\<lambda>r. row_key r = (''ch1'', None)) (history thread_rows) = history scenario_rows"
    by simp
  from snapshot_same_entity [of thread_rows "''ch1''" "Some ''0''", THEN conjunct2] f2
  have b: "filter (\<lambda>r. row_key r = (''ch1'', Some ''0'')) (history thread_rows)
       = history [thread_rows ! 1]"
    by simp
  have c: "history [thread_rows ! 1]
       = [\<lparr>conversation = [\<lparr>user = ''T'', ts = ''0.5'', msg_text = ''re'', reactions = []\<rparr>],
           engaged_users = [],
           row_time = 1500000000,
           row_key = (''ch1'', Some ''0'')\<rparr>]"
    by (simp add: thread_rows_def aggregator_defs)
  have d: "length (history thread_rows) = 5" by (simp add: thread_history)
  from a b c d show ?thesis by blast
qed

section \<open>Empty snapshots\<close>






section \<open>The engagement window is capped\<close>

lemma set_union_list: "set (union_list xs ys) = set xs \<union> set ys"
  by (simp add: union_list_def)

text \<open>
  C10: at every timestep, with \<open>w\<close> the events of the entity's buffer inside the trailing
  window, the engaged users are exactly the authors and reactors of the last 100 events
  of \<open>w\<close>; an event of the window older than those contributes nothing.
\<close>

theorem engagement_window_capped:
  assumes "history_at buf e = Some r"
    and "w = trailing (timedelta_seconds 1) (ts_parsed e) buf"
  shows "length (drop (length w - 100) w) \<le> 100
     \<and> (u \<in> set (engaged_users r) \<longleftrightarrow>
          (\<exists>m\<in>set (drop (length w - 100) w).
              u = user m \<or> (\<exists>x\<in>set (reactions m). u \<in> set (users x))))"
proof -
  from assms(1) have "engaged_users r =
      union_list (reaction_users buf (ts_parsed e)) (participating_users buf (ts_parsed e))"
    by (auto simp add: history_at_def split: option.splits)
  then have "set (engaged_users r) =
      (\<Union>m\<in>set (drop (length w - 100) w). \<Union>x\<in>set (reactions m). set (users x))
      \<union> user ` set (drop (length w - 100) w)"
    by (simp add: set_union_list reaction_users_def participating_users_def
        window_messages_def collect_max_def assms(2))
  then show ?thesis by auto
qed

text \<open>With 101 events in the window, the author of the oldest one is not engaged.\<close>

theorem engagement_window_capped_witness:
  "history_at crowded_buffer (crowded_event ''new'' (timedelta_seconds 1)) =
     Some \<lparr>conversation = [\<lparr>user = ''A'', ts = ''t'', msg_text = ''m'', reactions = []\<rparr>],
           engaged_users = [''new''],
           row_time = timedelta_seconds 1,
           row_key = (''ch1'', None)\<rparr>
   \<and> crowded_event ''old'' (timedelta_seconds 1)
       \<in> set (trailing (timedelta_seconds 1) (timedelta_seconds 1) crowded_buffer)
   \<and> ''old'' \<notin> set [''new'']
   \<and> length (trailing (timedelta_seconds 1) (timedelta_seconds 1) crowded_buffer) = 101"
proof -
  note w = crowded_window [symmetric]
  from engagement_window_capped [OF crowded_history_at w, of "''old''"]
  have "''old'' \<notin> set [''new'']" by simp
  moreover have "ts_parsed (crowded_event ''new'' (timedelta_seconds 1)) = timedelta_seconds 1"
    by (simp add: crowded_event_def)
  ultimately show ?thesis using crowded_history_at crowded_window by simp
qed

text \<open>The same cap holds for the rows derived at shifted points.\<close>

lemma engagement_window_capped_shifted:
  assumes "r = history_at_shifted buf t k v"
    and "w = trailing (timedelta_seconds 1) t buf"
  shows "u \<in> set (engaged_users r) \<longleftrightarrow>
          (\<exists>m\<in>set (drop (length w - 100) w).
              u = user m \<or> (\<exists>x\<in>set (reactions m). u \<in> set (users x)))"
proof -
  have "set (engaged_users r) =
      (\<Union>m\<in>set (drop (length w - 100) w). \<Union>x\<in>set (reactions m). set (users x))
      \<union> user ` set (drop (length w - 100) w)"
    by (simp add: assms history_at_shifted_def set_union_list reaction_users_def
        participating_users_def window_messages_def collect_max_def)
  then show ?thesis by auto
qed

end
